theory Spec2Isabelle
  imports Complex_Main
begin

section \<open>The descent driver \<open>invert\<close> of InitialPhase/optimizer/optimizelove.cpp\<close>

text \<open>
  The driver couples a forward-model misfit (\<open>likelihood_love\<close>) to a constrained
  least-squares update. Its collaborators live in headers outside the translation unit
  (\<open>likelihood.hpp\<close>, \<open>simple.hpp\<close>, \<open>quasinewton.hpp\<close>), so they are parameters of the
  embedding, collected in the record \<open>externals\<close>; every theorem below holds for all of
  them unless it names a hypothesis on them.

  Conventions of the embedding:
  \<^item> the misfit is a \<open>double\<close> that is a real number or NaN, compared as the machine
    compares it: every comparison with NaN is false, so \<open>\<not> a < b\<close> does not give
    \<open>b \<le> a\<close>. What \<open>likelihood_love\<close> returns is outside the sources, NaN included;
  \<^item> the step sizes and the scalar parameters are \<open>real\<close>: \<open>epsilon\<close> starts from the
    value that \<open>main\<close> passes and is only halved, and the halving \<open>*= 0.5\<close> is the
    exact one; underflow and infinities are outside the model;
  \<^item> \<open>'m\<close> is \<open>model_t\<close>, \<open>'v\<close> is \<open>Spec1DMatrix<double>\<close>, \<open>'k\<close> is
    \<open>Spec1DMatrix<int>\<close>; \<open>'w\<close> bundles the objects that \<open>likelihood_love\<close> receives by
    reference besides the model (data, mesh, love, dkdp, dUdp, dLdp, G, residuals, Cd);
  \<^item> the counter \<open>iterations\<close> starts at 0 and is only incremented while below
    \<open>maxiterations\<close>, so it is a \<open>nat\<close>; \<open>maxiterations\<close> and \<open>mode\<close> are integers as
    passed;
  \<^item> the array \<open>epsilon[2]\<close> is a function of the index, the array \<open>step[2]\<close> a list;
  \<^item> what \<open>printf\<close> and \<open>fprintf\<close> write is the list \<open>out\<close> of events.
\<close>

datatype strategy = SimpleStep | QuasiNewton

datatype double = Val real | NaN

instantiation double :: ord
begin

definition less_eq_double :: "double \<Rightarrow> double \<Rightarrow> bool" where
  "less_eq_double a b = (case (a, b) of (Val x, Val y) \<Rightarrow> x \<le> y | _ \<Rightarrow> False)"

definition less_double :: "double \<Rightarrow> double \<Rightarrow> bool" where
  "less_double a b = (case (a, b) of (Val x, Val y) \<Rightarrow> x < y | _ \<Rightarrow> False)"

instance ..

end

datatype event =
    Init double
  | SaveFailed
  | Exiting nat
  | Backtracking nat
  | Progress nat double real

text \<open>
  Modelled from the spec: the signatures of the collaborators that the driver calls and
  whose definitions are not in the sources. \<open>likelihood_love\<close> returns the misfit and the
  updated by-reference objects; \<open>copy_vector\<close> is \<open>LeastSquaresIterator::copy(model, v,
  mask)\<close>, \<open>copy_model\<close> is \<open>LeastSquaresIterator::copy(v, model)\<close>; \<open>ComputeStep\<close> returns
  its boolean and the proposed vector (it receives the old one, which it may leave as it
  is) and, as in section 4.3 of the specification, depends on its arguments only: the
  two strategy objects carry no state from call to call; \<open>EPSILON_MIN\<close> is the macro of
  that name, whose value the sources do not give.
\<close>

record ('m, 'v, 'k, 'w) externals =
  likelihood_love :: "'w \<Rightarrow> 'm \<Rightarrow> 'm \<Rightarrow> real list \<Rightarrow> bool \<Rightarrow> real \<Rightarrow> real \<Rightarrow> real \<Rightarrow> real
                        \<Rightarrow> real \<Rightarrow> real \<Rightarrow> double \<times> 'w"
  save_predictions :: "'w \<Rightarrow> bool"
  G_cols :: "'w \<Rightarrow> nat"
  empty_matrix :: 'v
  empty_mask :: 'k
  resize :: "nat \<Rightarrow> nat \<Rightarrow> 'v \<Rightarrow> 'v"
  resize_mask :: "nat \<Rightarrow> nat \<Rightarrow> 'k \<Rightarrow> 'k"
  initialize_Cm :: "'m \<Rightarrow> real list \<Rightarrow> 'v \<Rightarrow> 'v"
  copy_vector :: "'m \<Rightarrow> 'v \<Rightarrow> 'k \<Rightarrow> 'v \<times> 'k"
  copy_model :: "'v \<Rightarrow> 'm \<Rightarrow> 'm"
  ComputeStep :: "strategy \<Rightarrow> real \<Rightarrow> 'w \<Rightarrow> 'v \<Rightarrow> 'k \<Rightarrow> 'v \<Rightarrow> 'v \<Rightarrow> 'v \<Rightarrow> bool \<times> 'v"
  validate :: "'v \<Rightarrow> 'k \<Rightarrow> real list \<Rightarrow> real list \<Rightarrow> bool"
  EPSILON_MIN :: real

text \<open>The scalar parameters of \<open>invert\<close> and the reference model (\<open>epsilon0\<close> is \<open>_epsilon\<close>).\<close>

record 'm params =
  reference :: 'm
  damping :: "real list"
  posterior :: bool
  threshold :: real
  order :: real
  highorder :: real
  boundaryorder :: real
  scale :: real
  epsilon0 :: real
  maxiterations :: int
  mode :: int

text \<open>The variables of \<open>invert\<close> that live across the loop.\<close>

record ('m, 'v, 'k, 'w) state =
  model :: 'm
  work :: 'w
  Cm :: 'v
  model_mask :: 'k
  model_0 :: 'v
  model_v :: 'v
  model_v_proposed :: 'v
  epsilon :: "nat \<Rightarrow> real"
  like :: double
  last_like :: double
  iterations :: nat
  out :: "event list"

definition PRIOR_MIN :: "real list" where
  "PRIOR_MIN = [100, 500, 0.5, 1]"

definition PRIOR_MAX :: "real list" where
  "PRIOR_MAX = [8000, 10000, 1.5, 2.5]"

definition frequency_thin :: real where
  "frequency_thin = 0.001"

definition step :: "strategy list" where
  "step = [SimpleStep, QuasiNewton]"

text \<open>Lines 416-495: everything before the loop.\<close>

definition invert_init ::
  "('m, 'v, 'k, 'w) externals \<Rightarrow> 'w \<Rightarrow> 'm \<Rightarrow> 'm params \<Rightarrow> ('m, 'v, 'k, 'w) state" where
  "invert_init env w0 m0 p =
    (let (l, w1) = likelihood_love env w0 m0 (reference p) (damping p) (posterior p)
                     (threshold p) (order p) (highorder p) (boundaryorder p) (scale p)
                     frequency_thin;
         out1 = [Init l];
         out2 = (if \<not> save_predictions env w1 then out1 @ [SaveFailed] else out1);
         nparam = G_cols env w1;
         cm = initialize_Cm env m0 (damping p) (resize env nparam 1 (empty_matrix env));
         (v0, k0) = copy_vector env (reference p) (resize env nparam 1 (empty_matrix env))
                      (resize_mask env nparam 1 (empty_mask env))
     in \<lparr>model = m0, work = w1, Cm = cm, model_mask = k0, model_0 = v0,
         model_v = resize env nparam 1 (empty_matrix env),
         model_v_proposed = resize env nparam 1 (empty_matrix env),
         epsilon = (\<lambda>i. epsilon0 p), like = l, last_like = l, iterations = 0,
         out = out2\<rparr>)"

text \<open>
  Lines 509-528: one pass of the inner \<open>do\<close> body. The boolean of \<open>ComputeStep\<close> guards
  an empty block, so it is bound and not used. The result is \<open>valid\<close> and the state.
\<close>

definition attempt ::
  "('m, 'v, 'k, 'w) externals \<Rightarrow> nat \<Rightarrow> ('m, 'v, 'k, 'w) state
     \<Rightarrow> bool \<times> ('m, 'v, 'k, 'w) state" where
  "attempt env m s =
    (let (v, k) = copy_vector env (model s) (model_v s) (model_mask s);
         s1 = s\<lparr>model_v := v, model_mask := k\<rparr>;
         (ok, proposed) = ComputeStep env (step ! m) (epsilon s1 m) (work s1) (Cm s1)
                            (model_mask s1) (model_v s1) (model_0 s1) (model_v_proposed s1);
         s2 = s1\<lparr>model_v_proposed := proposed\<rparr>;
         valid = validate env (model_v_proposed s2) (model_mask s2) PRIOR_MIN PRIOR_MAX
     in (valid, if \<not> valid then s2\<lparr>epsilon := (epsilon s2)(m := epsilon s2 m * 0.5)\<rparr> else s2))"

text \<open>Lines 508-529: the inner \<open>do ... while (!valid)\<close>; it has no bound of its own.\<close>

partial_function (option) validate_loop ::
  "('m, 'v, 'k, 'w) externals \<Rightarrow> nat \<Rightarrow> ('m, 'v, 'k, 'w) state
     \<Rightarrow> ('m, 'v, 'k, 'w) state option" where
  "validate_loop env m s =
    (case attempt env m s of
       (valid, s') \<Rightarrow> if valid then Some s' else validate_loop env m s')"

text \<open>
  Lines 531-598: the rest of the outer body, from the write of the proposal into the
  model to the end of the \<open>if\<close>. The boolean is true when the body leaves by \<open>break\<close>.
\<close>

definition evaluate ::
  "('m, 'v, 'k, 'w) externals \<Rightarrow> 'm params \<Rightarrow> nat \<Rightarrow> ('m, 'v, 'k, 'w) state
     \<Rightarrow> bool \<times> ('m, 'v, 'k, 'w) state" where
  "evaluate env p m s =
    (let s1 = s\<lparr>model := copy_model env (model_v_proposed s) (model s)\<rparr>;
         s2 = s1\<lparr>last_like := like s1\<rparr>;
         (l, w) = likelihood_love env (work s2) (model s2) (reference p) (damping p)
                    (posterior p) (threshold p) (order p) (highorder p) (boundaryorder p)
                    (scale p) frequency_thin;
         s3 = s2\<lparr>like := l, work := w\<rparr>
     in if like s3 > last_like s3 then
          if epsilon s3 m < EPSILON_MIN env then
            (True, s3\<lparr>out := out s3 @ [Exiting (iterations s3)]\<rparr>)
          else
            (let s4 = s3\<lparr>out := out s3 @ [Backtracking (iterations s3)]\<rparr>;
                 s5 = s4\<lparr>epsilon := (epsilon s4)(m := epsilon s4 m * 0.5)\<rparr>;
                 s6 = s5\<lparr>model := copy_model env (model_v s5) (model s5)\<rparr>;
                 (l', w') = likelihood_love env (work s6) (model s6) (reference p)
                              (damping p) (posterior p) (threshold p) (order p)
                              (highorder p) (boundaryorder p) (scale p) frequency_thin
             in (False, s6\<lparr>like := l', work := w'\<rparr>))
        else
          (False, s3\<lparr>out := out s3 @ [Progress (iterations s3) (like s3) (epsilon s3 m)],
                      iterations := iterations s3 + 1\<rparr>))"

text \<open>Lines 500-600: the outer \<open>do ... while (iterations < maxiterations)\<close>.\<close>

partial_function (option) invert_loop ::
  "('m, 'v, 'k, 'w) externals \<Rightarrow> 'm params \<Rightarrow> ('m, 'v, 'k, 'w) state
     \<Rightarrow> ('m, 'v, 'k, 'w) state option" where
  "invert_loop env p s =
    (case validate_loop env (iterations s mod 2) s of
       None \<Rightarrow> None
     | Some s1 \<Rightarrow>
         (case evaluate env p (iterations s mod 2) s1 of
            (brk, s2) \<Rightarrow>
              if brk then Some s2
              else if int (iterations s2) < maxiterations p then invert_loop env p s2
              else Some s2))"

text \<open>Lines 400-603: \<open>invert\<close>; it returns its boolean and leaves the state behind.\<close>

definition invert ::
  "('m, 'v, 'k, 'w) externals \<Rightarrow> 'w \<Rightarrow> 'm \<Rightarrow> 'm params
     \<Rightarrow> (bool \<times> ('m, 'v, 'k, 'w) state) option" where
  "invert env w0 m0 p =
    (case invert_loop env p (invert_init env w0 m0 p) of
       None \<Rightarrow> None
     | Some s \<Rightarrow> Some (True, s))"

declare validate_loop.simps [code]
declare invert_loop.simps [code]

subsection \<open>Notions used to state the properties of a run\<close>

text \<open>
  The states a run goes through at the top of the inner \<open>do\<close> body (line 509), from a
  state \<open>s0\<close> there: a rejected proposal leads back to line 509 with the counter as it
  was (\<open>retry\<close>); a valid one is evaluated and, unless the body leaves by \<open>break\<close> or
  the counter has reached \<open>maxiterations\<close>, the next pass starts (\<open>pass\<close>).
\<close>

inductive invert_visits ::
  "('m, 'v, 'k, 'w) externals \<Rightarrow> 'm params \<Rightarrow> ('m, 'v, 'k, 'w) state
     \<Rightarrow> ('m, 'v, 'k, 'w) state \<Rightarrow> bool"
  for env p s0 where
    start: "invert_visits env p s0 s0"
  | retry: "invert_visits env p s0 s \<Longrightarrow> attempt env (iterations s mod 2) s = (False, s')
      \<Longrightarrow> invert_visits env p s0 s'"
  | pass: "invert_visits env p s0 s \<Longrightarrow> attempt env (iterations s mod 2) s = (True, s1)
      \<Longrightarrow> evaluate env p (iterations s mod 2) s1 = (False, s2)
      \<Longrightarrow> int (iterations s2) < maxiterations p
      \<Longrightarrow> invert_visits env p s0 s2"

text \<open>
  The call of \<open>likelihood_love\<close> at line 538, seen from the state in which the inner
  loop ends: the misfit of the model with the proposal written into it.
\<close>

definition evaluated ::
  "('m, 'v, 'k, 'w) externals \<Rightarrow> 'm params \<Rightarrow> ('m, 'v, 'k, 'w) state \<Rightarrow> double \<times> 'w" where
  "evaluated env p s =
     likelihood_love env (work s) (copy_model env (model_v_proposed s) (model s))
       (reference p) (damping p) (posterior p) (threshold p) (order p) (highorder p)
       (boundaryorder p) (scale p) frequency_thin"

text \<open>The misfit that \<open>likelihood_love\<close> returns for a model, under the run's arguments.\<close>

definition misfit_of ::
  "('m, 'v, 'k, 'w) externals \<Rightarrow> 'm params \<Rightarrow> 'w \<Rightarrow> 'm \<Rightarrow> double" where
  "misfit_of env p w m =
     fst (likelihood_love env w m (reference p) (damping p) (posterior p) (threshold p)
            (order p) (highorder p) (boundaryorder p) (scale p) frequency_thin)"

text \<open>
  Modelled from the spec: the purity of the misfit that section 4.5 requires of
  \<open>likelihood_love\<close>, whose definition is not in the sources. A call leaves no trace in
  the objects it updates that a later call's misfit depends on.
\<close>

definition pure_likelihood :: "('m, 'v, 'k, 'w) externals \<Rightarrow> 'm params \<Rightarrow> bool" where
  "pure_likelihood env p =
     (\<forall>w m m'. misfit_of env p
        (snd (likelihood_love env w m' (reference p) (damping p) (posterior p) (threshold p)
                (order p) (highorder p) (boundaryorder p) (scale p) frequency_thin)) m
      = misfit_of env p w m)"

text \<open>
  Modelled from the spec: the contract of the two \<open>copy\<close> directions of
  \<open>LeastSquaresIterator\<close> in section 4.1 (they are inverses on the free slots, and
  the write leaves the fixed slots alone), whose definitions are not in the sources; in
  the form the backtrack uses it: writing back the vector read from a model undoes a
  write of any other vector.
\<close>

definition copy_restores :: "('m, 'v, 'k, 'w) externals \<Rightarrow> bool" where
  "copy_restores env =
     (\<forall>m v v0 k0. copy_model env (fst (copy_vector env m v0 k0)) (copy_model env v m) = m)"

text \<open>The misfits a run prints: the initial one and those of the accepted passes.\<close>

fun misfits :: "event list \<Rightarrow> double list" where
  "misfits [] = []"
| "misfits (Init l # es) = l # misfits es"
| "misfits (Progress i l e # es) = l # misfits es"
| "misfits (SaveFailed # es) = misfits es"
| "misfits (Exiting i # es) = misfits es"
| "misfits (Backtracking i # es) = misfits es"

text \<open>
  What holds at every state a run visits when the misfit is pure and \<open>copy\<close> restores:
  the misfit is the same function of the model as at the start, \<open>like\<close> is the misfit
  of the model and the last misfit printed, and the printed misfits do not increase.
\<close>

definition run_inv ::
  "('m, 'v, 'k, 'w) externals \<Rightarrow> 'm params \<Rightarrow> 'w \<Rightarrow> ('m, 'v, 'k, 'w) state \<Rightarrow> bool" where
  "run_inv env p w0 s =
     ((\<forall>m. misfit_of env p (work s) m = misfit_of env p w0 m) \<and>
      like s = misfit_of env p w0 (model s) \<and>
      misfits (out s) \<noteq> [] \<and>
      like s = last (misfits (out s)) \<and>
      sorted_wrt (\<ge>) (misfits (out s)))"

subsection \<open>A small instance\<close>

text \<open>
  One free parameter (the model is its value), bounded as \<open>xi\<close> is by the third entry
  of the prior bounds; the simple step moves it down by \<open>epsilon\<close>, the quasi-Newton
  step by twice that; the misfit is the squared distance from 1.
\<close>

definition toy :: "(real, real, unit, unit) externals" where
  "toy = \<lparr>likelihood_love = (\<lambda>w m r d po t o' h b sc ft. (Val ((m - 1) * (m - 1)), w)),
          save_predictions = (\<lambda>w. True), G_cols = (\<lambda>w. 1), empty_matrix = 0,
          empty_mask = (), resize = (\<lambda>r c v. 0), resize_mask = (\<lambda>r c k. ()),
          initialize_Cm = (\<lambda>m d v. 1), copy_vector = (\<lambda>m v k. (m, k)),
          copy_model = (\<lambda>v m. v),
          ComputeStep = (\<lambda>st e w cm k v v0 old.
             (True, case st of SimpleStep \<Rightarrow> v - e | QuasiNewton \<Rightarrow> v - 2 * e)),
          validate = (\<lambda>v k lo hi. lo ! 2 \<le> v \<and> v \<le> hi ! 2),
          EPSILON_MIN = 0.1\<rparr>"


text \<open>The same with a misfit that is not a number for parameters below 1.\<close>

definition toy_nan :: "(real, real, unit, unit) externals" where
  "toy_nan = toy\<lparr>likelihood_love := (\<lambda>w m r d po t o' h b sc ft.
      (if m < 1 then NaN else Val ((m - 1) * (m - 1)), w))\<rparr>"

definition toy_params :: "real params" where
  "toy_params = \<lparr>reference = 1, damping = [0, 0, 0, 0], posterior = False, threshold = 0,
     order = 5, highorder = 5, boundaryorder = 5, scale = 0.0001, epsilon0 = 1,
     maxiterations = 5, mode = 0\<rparr>"

text \<open>The state of the small instance's run from 1.4 when its second pass starts.\<close>

definition toy_head :: "(real, real, unit, unit) state" where
  "toy_head = \<lparr>model = 9 / 10, work = (), Cm = 1, model_mask = (), model_0 = 1,
      model_v = 14 / 10, model_v_proposed = 9 / 10, epsilon = (\<lambda>i. 1)(0 := 1 / 2),
      like = Val (1 / 100), last_like = Val (4 / 25), iterations = 1,
      out = [Init (Val (4 / 25)), Progress 0 (Val (1 / 100)) (1 / 2)]\<rparr>"

text \<open>The small instance with one and the same strategy in both slots of \<open>step\<close>.\<close>

definition toy_only :: "strategy \<Rightarrow> (real, real, unit, unit) externals" where
  "toy_only st = toy\<lparr>ComputeStep := (\<lambda>any. ComputeStep toy st)\<rparr>"


section \<open>Basic facts about the loop bodies\<close>

lemma double_less [simp]:
  "Val x < Val y \<longleftrightarrow> x < y" "\<not> a < NaN" "\<not> NaN < b"
  by (simp_all add: less_double_def split: double.splits)

lemma double_less_eq [simp]:
  "Val x \<le> Val y \<longleftrightarrow> x \<le> y" "\<not> a \<le> NaN" "\<not> NaN \<le> b"
  by (simp_all add: less_eq_double_def split: double.splits)

lemma double_le_trans:
  fixes a b c :: double
  assumes "a \<le> b" and "b \<le> c"
  shows "a \<le> c"
  using assms by (cases a; cases b; cases c) simp_all

lemma double_not_less:
  fixes a b :: double
  assumes "\<not> a < b" and "a \<noteq> NaN" and "b \<noteq> NaN"
  shows "b \<le> a"
  using assms by (cases a; cases b) simp_all

lemma double_less_not_le:
  fixes a b :: double
  assumes "a < b"
  shows "\<not> b \<le> a"
  using assms by (cases a; cases b) simp_all

lemmas validate_loop_induct = validate_loop.raw_induct [rotated, consumes 1, case_names step]
lemmas invert_loop_induct = invert_loop.raw_induct [rotated, consumes 1, case_names step]

lemma attempt_frame:
  assumes "attempt env m s = (valid, s')"
  shows "model s' = model s" "work s' = work s" "Cm s' = Cm s" "model_0 s' = model_0 s"
    "like s' = like s" "last_like s' = last_like s" "iterations s' = iterations s"
    "out s' = out s"
  using assms
  by (auto simp: attempt_def Let_def split: prod.splits if_splits)

lemma attempt_epsilon:
  assumes "attempt env m s = (valid, s')"
  shows "epsilon s' = (if valid then epsilon s else (epsilon s)(m := epsilon s m * 0.5))"
  using assms
  by (auto simp: attempt_def Let_def split: prod.splits if_splits)

lemma attempt_snapshot:
  assumes "attempt env m s = (valid, s')"
  shows "(model_v s', model_mask s') = copy_vector env (model s) (model_v s) (model_mask s)"
  using assms
  by (auto simp: attempt_def Let_def split: prod.splits if_splits)

lemma attempt_valid:
  assumes "attempt env m s = (valid, s')"
  shows "valid = validate env (model_v_proposed s') (model_mask s') PRIOR_MIN PRIOR_MAX"
  using assms
  by (auto simp: attempt_def Let_def split: prod.splits if_splits)

lemma validate_loop_last:
  assumes "validate_loop env m s = Some s1"
  shows "\<exists>h. attempt env m h = (True, s1) \<and> model h = model s \<and> work h = work s \<and>
    Cm h = Cm s \<and> model_0 h = model_0 s \<and> like h = like s \<and> last_like h = last_like s \<and>
    iterations h = iterations s \<and> out h = out s \<and>
    (\<forall>j. j \<noteq> m \<longrightarrow> epsilon h j = epsilon s j) \<and> (\<exists>n. epsilon h m = epsilon s m * (1 / 2) ^ n)"
  using assms
proof (induction env m s s1 rule: validate_loop_induct)
  case (step f env m s r)
  obtain valid s1 where a: "attempt env m s = (valid, s1)"
    by (cases "attempt env m s")
  note fr = attempt_frame [OF a] and ep = attempt_epsilon [OF a]
  show ?case
  proof (cases valid)
    case True
    with step(2) a have "attempt env m s = (True, r)" by simp
    moreover have "epsilon s m = epsilon s m * (1 / 2) ^ 0" by simp
    ultimately show ?thesis by blast
  next
    case False
    with step(2) a have "f env m s1 = Some r" by simp
    from step(1) [OF this] obtain h n where h: "attempt env m h = (True, r)"
      "model h = model s1" "work h = work s1" "Cm h = Cm s1" "model_0 h = model_0 s1"
      "like h = like s1" "last_like h = last_like s1" "iterations h = iterations s1"
      "out h = out s1" "\<forall>j. j \<noteq> m \<longrightarrow> epsilon h j = epsilon s1 j"
      "epsilon h m = epsilon s1 m * (1 / 2) ^ n"
      by blast
    from ep False have e1: "epsilon s1 = (epsilon s)(m := epsilon s m * 0.5)" by simp
    have "epsilon h m = epsilon s m * (1 / 2) ^ Suc n"
      using h(11) e1 by simp
    then have E: "\<exists>n. epsilon h m = epsilon s m * (1 / 2) ^ n" by (rule exI)
    have F: "\<forall>j. j \<noteq> m \<longrightarrow> epsilon h j = epsilon s j"
      using h(10) e1 by simp
    have "attempt env m h = (True, r) \<and> model h = model s \<and> work h = work s \<and>
      Cm h = Cm s \<and> model_0 h = model_0 s \<and> like h = like s \<and> last_like h = last_like s \<and>
      iterations h = iterations s \<and> out h = out s"
      using h(1-9) fr by simp
    with E F show ?thesis by blast
  qed
qed

lemma evaluate_accept:
  assumes "\<not> like s < fst (evaluated env p s)"
  shows "evaluate env p m s =
    (False, s\<lparr>model := copy_model env (model_v_proposed s) (model s), last_like := like s,
               like := fst (evaluated env p s), work := snd (evaluated env p s),
               out := out s @ [Progress (iterations s) (fst (evaluated env p s)) (epsilon s m)],
               iterations := iterations s + 1\<rparr>)"
  using assms by (simp add: evaluate_def evaluated_def Let_def split_def)

lemma evaluate_exit:
  assumes "like s < fst (evaluated env p s)" and "epsilon s m < EPSILON_MIN env"
  shows "evaluate env p m s =
    (True, s\<lparr>model := copy_model env (model_v_proposed s) (model s), last_like := like s,
              like := fst (evaluated env p s), work := snd (evaluated env p s),
              out := out s @ [Exiting (iterations s)]\<rparr>)"
  using assms by (simp add: evaluate_def evaluated_def Let_def split_def)

lemma evaluate_backtrack:
  assumes "like s < fst (evaluated env p s)" and "\<not> epsilon s m < EPSILON_MIN env"
  shows "evaluate env p m s =
    (False, s\<lparr>model := copy_model env (model_v s) (copy_model env (model_v_proposed s) (model s)),
               last_like := like s,
               like := fst (likelihood_love env (snd (evaluated env p s))
                 (copy_model env (model_v s) (copy_model env (model_v_proposed s) (model s)))
                 (reference p) (damping p) (posterior p) (threshold p) (order p) (highorder p)
                 (boundaryorder p) (scale p) frequency_thin),
               work := snd (likelihood_love env (snd (evaluated env p s))
                 (copy_model env (model_v s) (copy_model env (model_v_proposed s) (model s)))
                 (reference p) (damping p) (posterior p) (threshold p) (order p) (highorder p)
                 (boundaryorder p) (scale p) frequency_thin),
               epsilon := (epsilon s)(m := epsilon s m * 0.5),
               out := out s @ [Backtracking (iterations s)]\<rparr>)"
  using assms by (simp add: evaluate_def evaluated_def Let_def split_def)

lemma invert_loop_pass:
  assumes "validate_loop env (iterations s mod 2) s = Some s1"
    and "evaluate env p (iterations s mod 2) s1 = (brk, s2)"
  shows "invert_loop env p s =
    (if brk then Some s2
     else if int (iterations s2) < maxiterations p then invert_loop env p s2 else Some s2)"
  using assms by (subst invert_loop.simps) simp


lemma validate_loop_cong_Some:
  assumes "validate_loop e1 m s = Some r"
    and "\<And>s. attempt e1 m s = attempt e2 m s"
  shows "validate_loop e2 m s = Some r"
  using assms
proof (induction e1 m s r rule: validate_loop_induct)
  case (step f env m s r)
  obtain valid s1 where a: "attempt env m s = (valid, s1)"
    by (cases "attempt env m s")
  then have a2: "attempt e2 m s = (valid, s1)"
    using step(3) by simp
  show ?case
  proof (cases valid)
    case True
    with step(2) a a2 show ?thesis
      by (subst validate_loop.simps) simp
  next
    case False
    with step(2) a have "f env m s1 = Some r" by simp
    from step(1) [OF this step(3)] have "validate_loop e2 m s1 = Some r" .
    with False a2 show ?thesis
      by (subst validate_loop.simps) simp
  qed
qed

lemma validate_loop_cong:
  assumes "\<And>s. attempt e1 m s = attempt e2 m s"
  shows "validate_loop e1 m s = validate_loop e2 m s"
proof (cases "validate_loop e1 m s")
  case (Some r)
  with validate_loop_cong_Some [OF Some assms] show ?thesis by simp
next
  case None
  show ?thesis
  proof (cases "validate_loop e2 m s")
    case (Some r)
    from validate_loop_cong_Some [OF Some assms [symmetric]] None show ?thesis by simp
  next
    case n2: None
    with None show ?thesis by simp
  qed
qed

lemma invert_loop_cong_Some:
  assumes "invert_loop e1 p1 s = Some r"
    and "\<And>m s. validate_loop e1 m s = validate_loop e2 m s"
    and "\<And>m s. evaluate e1 p1 m s = evaluate e2 p2 m s"
    and "maxiterations p1 = maxiterations p2"
  shows "invert_loop e2 p2 s = Some r"
  using assms
proof (induction e1 p1 s r rule: invert_loop_induct)
  case (step f env p s r)
  from step(2) obtain s1 where v: "validate_loop env (iterations s mod 2) s = Some s1"
    by (cases "validate_loop env (iterations s mod 2) s") auto
  obtain brk s2 where e: "evaluate env p (iterations s mod 2) s1 = (brk, s2)"
    by (cases "evaluate env p (iterations s mod 2) s1")
  from v step(3) have v2: "validate_loop e2 (iterations s mod 2) s = Some s1" by simp
  from e step(4) have e2: "evaluate e2 p2 (iterations s mod 2) s1 = (brk, s2)" by simp
  show ?case
  proof (cases "\<not> brk \<and> int (iterations s2) < maxiterations p")
    case True
    with step(2) v e have "f env p s2 = Some r" by simp
    from step(1) [OF this step(3) step(4) step(5)]
    have "invert_loop e2 p2 s2 = Some r" .
    with True v2 e2 step(5) show ?thesis
      by (subst invert_loop.simps) simp
  next
    case False
    with step(2) v e have "r = s2" by (auto split: if_splits)
    with False v2 e2 step(5) show ?thesis
      by (subst invert_loop.simps) auto
  qed
qed

lemma invert_loop_cong:
  assumes "\<And>m s. validate_loop e1 m s = validate_loop e2 m s"
    and "\<And>m s. evaluate e1 p1 m s = evaluate e2 p2 m s"
    and "maxiterations p1 = maxiterations p2"
  shows "invert_loop e1 p1 s = invert_loop e2 p2 s"
proof (cases "invert_loop e1 p1 s")
  case (Some r)
  with invert_loop_cong_Some [OF Some assms] show ?thesis by simp
next
  case None
  show ?thesis
  proof (cases "invert_loop e2 p2 s")
    case (Some r)
    from invert_loop_cong_Some [OF Some assms(1) [symmetric] assms(2) [symmetric]
        assms(3) [symmetric]] None
    show ?thesis by simp
  next
    case n2: None
    with None show ?thesis by simp
  qed
qed

lemma invert_cong:
  assumes "\<And>m s. attempt e1 m s = attempt e2 m s"
    and "\<And>m s. evaluate e1 p1 m s = evaluate e2 p2 m s"
    and "maxiterations p1 = maxiterations p2"
    and "invert_init e1 w0 m0 p1 = invert_init e2 w0 m0 p2"
  shows "invert e1 w0 m0 p1 = invert e2 w0 m0 p2"
  unfolding invert_def assms(4)
  using invert_loop_cong [OF validate_loop_cong [OF assms(1)] assms(2) assms(3)]
  by simp

lemma invert_mode_irrelevant:
  "invert env w0 m0 (p\<lparr>mode := x\<rparr>) = invert env w0 m0 p"
  by (rule invert_cong)
     (simp_all add: attempt_def evaluate_def invert_init_def split_def Let_def)

subsection \<open>A run in terms of the states it visits\<close>

lemma invert_visits_trans:
  assumes "invert_visits env p b c" and "invert_visits env p a b"
  shows "invert_visits env p a c"
  using assms
proof (induction rule: invert_visits.induct)
  case start
  then show ?case .
next
  case (retry s s')
  then show ?case by (blast intro: invert_visits.retry)
next
  case (pass s s1 s2)
  then show ?case by (blast intro: invert_visits.pass)
qed

lemma validate_loop_visits:
  assumes "validate_loop env m s = Some s1"
    and "m = iterations s mod 2"
    and "invert_visits env p s0 s"
  shows "\<exists>h. invert_visits env p s0 h \<and> iterations h = iterations s \<and>
    attempt env m h = (True, s1)"
  using assms
proof (induction env m s s1 rule: validate_loop_induct)
  case (step f env m s r)
  obtain valid s' where a: "attempt env m s = (valid, s')"
    by (cases "attempt env m s")
  show ?case
  proof (cases valid)
    case True
    with step(2) a have "attempt env m s = (True, r)" by simp
    with step(4) show ?thesis by blast
  next
    case False
    with step(2) a have r: "f env m s' = Some r" by simp
    have it: "iterations s' = iterations s" by (rule attempt_frame(7) [OF a])
    from a False step(3) have "attempt env (iterations s mod 2) s = (False, s')" by simp
    with step(4) have v: "invert_visits env p s0 s'" by (rule invert_visits.retry)
    from step(3) it have m: "m = iterations s' mod 2" by simp
    from step(1) [OF r m v] it show ?thesis by simp
  qed
qed

lemma invert_loop_final:
  assumes "invert_loop env p s = Some s'" and "invert_visits env p s0 s"
  shows "\<exists>h s1 brk. invert_visits env p s0 h \<and>
    attempt env (iterations h mod 2) h = (True, s1) \<and>
    evaluate env p (iterations h mod 2) s1 = (brk, s') \<and>
    (brk \<or> \<not> int (iterations s') < maxiterations p)"
  using assms
proof (induction env p s s' rule: invert_loop_induct)
  case (step f env p s r)
  from step(2) obtain s1 where v: "validate_loop env (iterations s mod 2) s = Some s1"
    by (cases "validate_loop env (iterations s mod 2) s") auto
  obtain brk s2 where e: "evaluate env p (iterations s mod 2) s1 = (brk, s2)"
    by (cases "evaluate env p (iterations s mod 2) s1")
  from validate_loop_visits [OF v refl step(3)] obtain h where
    h: "invert_visits env p s0 h" "iterations h = iterations s"
      "attempt env (iterations s mod 2) h = (True, s1)"
    by blast
  show ?case
  proof (cases "\<not> brk \<and> int (iterations s2) < maxiterations p")
    case True
    with step(2) v e have r: "f env p s2 = Some r" by simp
    from h e True have "invert_visits env p s0 s2"
      by (auto intro: invert_visits.pass [where s = h and ?s1.0 = s1])
    from step(1) [OF r this] show ?thesis .
  next
    case False
    with step(2) v e have "r = s2" by (auto split: if_splits)
    with False h e have "invert_visits env p s0 h \<and>
      attempt env (iterations h mod 2) h = (True, s1) \<and>
      evaluate env p (iterations h mod 2) s1 = (brk, r) \<and>
      (brk \<or> \<not> int (iterations r) < maxiterations p)"
      by auto
    then show ?thesis by blast
  qed
qed

lemma invert_final:
  assumes "invert env w0 m0 p = Some (b, s')"
  shows "\<exists>h s1 brk. invert_visits env p (invert_init env w0 m0 p) h \<and>
    attempt env (iterations h mod 2) h = (True, s1) \<and>
    evaluate env p (iterations h mod 2) s1 = (brk, s') \<and>
    (brk \<or> \<not> int (iterations s') < maxiterations p)"
proof -
  from assms have "invert_loop env p (invert_init env w0 m0 p) = Some s'"
    by (auto simp: invert_def split: option.splits)
  from invert_loop_final [OF this invert_visits.start] show ?thesis .
qed

lemma toy_head_visited: "invert_visits toy toy_params (invert_init toy () (14 / 10) toy_params) toy_head"
proof -
  let ?s0 = "invert_init toy () (14 / 10) toy_params"
  have a0: "attempt toy (iterations ?s0 mod 2) ?s0 = (False, snd (attempt toy 0 ?s0))"
    by (simp add: attempt_def invert_init_def toy_def toy_params_def frequency_thin_def
        step_def PRIOR_MIN_def PRIOR_MAX_def)
  have v1: "invert_visits toy toy_params ?s0 (snd (attempt toy 0 ?s0))"
    by (rule invert_visits.retry [OF invert_visits.start a0])
  let ?s1 = "snd (attempt toy 0 ?s0)"
  have a1: "attempt toy (iterations ?s1 mod 2) ?s1 = (True, snd (attempt toy 0 ?s1))"
    by (simp add: attempt_def invert_init_def toy_def toy_params_def frequency_thin_def
        step_def PRIOR_MIN_def PRIOR_MAX_def)
  have e1: "evaluate toy toy_params (iterations ?s1 mod 2) (snd (attempt toy 0 ?s1)) = (False, toy_head)"
    by (simp add: evaluate_def attempt_def invert_init_def toy_def toy_params_def
        frequency_thin_def step_def PRIOR_MIN_def PRIOR_MAX_def toy_head_def)
  have "int (iterations toy_head) < maxiterations toy_params"
    by (simp add: toy_head_def toy_params_def)
  from invert_visits.pass [OF v1 a1 e1 this] show ?thesis .
qed

subsection \<open>Step sizes\<close>

lemma evaluate_frame:
  assumes "evaluate env p m s = (brk, s')"
  shows "epsilon s' = epsilon s \<or> epsilon s' = (epsilon s)(m := epsilon s m * 0.5)"
    and "iterations s' = iterations s \<or> (\<not> brk \<and> iterations s' = Suc (iterations s))"
    and "Cm s' = Cm s" "model_0 s' = model_0 s" "model_v s' = model_v s"
      "model_mask s' = model_mask s" "model_v_proposed s' = model_v_proposed s"
proof -
  consider (acc) "\<not> like s < fst (evaluated env p s)"
    | (ext) "like s < fst (evaluated env p s)" "epsilon s m < EPSILON_MIN env"
    | (bck) "like s < fst (evaluated env p s)" "\<not> epsilon s m < EPSILON_MIN env"
    by blast
  then have "(epsilon s' = epsilon s \<or> epsilon s' = (epsilon s)(m := epsilon s m * 0.5)) \<and>
    (iterations s' = iterations s \<or> (\<not> brk \<and> iterations s' = Suc (iterations s))) \<and>
    Cm s' = Cm s \<and> model_0 s' = model_0 s \<and> model_v s' = model_v s \<and>
    model_mask s' = model_mask s \<and> model_v_proposed s' = model_v_proposed s"
  proof cases
    case acc
    from evaluate_accept [OF acc, of m] assms show ?thesis by auto
  next
    case ext
    from evaluate_exit [OF ext] assms show ?thesis by auto
  next
    case bck
    from evaluate_backtrack [OF bck] assms show ?thesis by auto
  qed
  then show "epsilon s' = epsilon s \<or> epsilon s' = (epsilon s)(m := epsilon s m * 0.5)"
    and "iterations s' = iterations s \<or> (\<not> brk \<and> iterations s' = Suc (iterations s))"
    and "Cm s' = Cm s" "model_0 s' = model_0 s" "model_v s' = model_v s"
      "model_mask s' = model_mask s" "model_v_proposed s' = model_v_proposed s"
    by blast+
qed

lemma halved_once:
  fixes e :: "nat \<Rightarrow> real"
  assumes "e' = e \<or> e' = e(m := e m * 0.5)"
  shows "\<exists>n. e' j = e j * (1 / 2) ^ n"
proof (cases "e' = e")
  case True
  then have "e' j = e j * (1 / 2) ^ 0" by simp
  then show ?thesis by (rule exI)
next
  case False
  with assms have e': "e' = e(m := e m * 0.5)" by simp
  show ?thesis
  proof (cases "j = m")
    case True
    with e' have "e' j = e j * (1 / 2) ^ 1" by simp
    then show ?thesis by (rule exI)
  next
    case False
    with e' have "e' j = e j * (1 / 2) ^ 0" by simp
    then show ?thesis by (rule exI)
  qed
qed

lemma halved_trans:
  fixes a b c :: real
  assumes "\<exists>n. b = a * (1 / 2) ^ n" and "\<exists>n. c = b * (1 / 2) ^ n"
  shows "\<exists>n. c = a * (1 / 2) ^ n"
proof -
  from assms obtain i j where "b = a * (1 / 2) ^ i" "c = b * (1 / 2) ^ j" by blast
  then have "c = a * (1 / 2) ^ (i + j)" by (simp add: power_add)
  then show ?thesis by (rule exI)
qed

lemma halved_le:
  fixes a b :: real
  assumes "\<exists>n. b = a * (1 / 2) ^ n" and "0 \<le> a"
  shows "b \<le> a" and "0 \<le> b"
proof -
  from assms(1) obtain n where b: "b = a * (1 / 2) ^ n" by blast
  have "(1 / 2 :: real) ^ n \<le> 1" by (simp add: power_le_one)
  then show "b \<le> a" unfolding b using assms(2) by (rule mult_left_le)
  from assms(2) show "0 \<le> b" unfolding b by simp
qed

lemma attempt_halved:
  assumes "attempt env m s = (valid, s')"
  shows "\<exists>n. epsilon s' j = epsilon s j * (1 / 2) ^ n"
proof (rule halved_once)
  from attempt_epsilon [OF assms]
  show "epsilon s' = epsilon s \<or> epsilon s' = (epsilon s)(m := epsilon s m * 0.5)"
    by (cases valid) simp_all
qed

lemma evaluate_halved:
  assumes "evaluate env p m s = (brk, s')"
  shows "\<exists>n. epsilon s' j = epsilon s j * (1 / 2) ^ n"
  by (rule halved_once) (rule evaluate_frame(1) [OF assms])

lemma invert_visits_halved:
  assumes "invert_visits env p s s'"
  shows "\<exists>n. epsilon s' j = epsilon s j * (1 / 2) ^ n"
  using assms
proof (induction rule: invert_visits.induct)
  case start
  have "epsilon s j = epsilon s j * (1 / 2) ^ 0" by simp
  then show ?case by (rule exI)
next
  case (retry t t')
  from retry.IH attempt_halved [OF retry.hyps(2)] show ?case by (rule halved_trans)
next
  case (pass t t1 t2)
  from attempt_halved [OF pass.hyps(2)] evaluate_halved [OF pass.hyps(3)]
  have "\<exists>n. epsilon t2 j = epsilon t j * (1 / 2) ^ n" by (rule halved_trans)
  with pass.IH show ?case by (rule halved_trans)
qed

lemma invert_loop_halved:
  assumes "invert_loop env p s = Some sf"
  shows "\<exists>n. epsilon sf j = epsilon s j * (1 / 2) ^ n"
proof -
  from invert_loop_final [OF assms invert_visits.start] obtain h s1 brk where
    h: "invert_visits env p s h" "attempt env (iterations h mod 2) h = (True, s1)"
      "evaluate env p (iterations h mod 2) s1 = (brk, sf)"
    by blast
  from attempt_halved [OF h(2)] evaluate_halved [OF h(3)]
  have "\<exists>n. epsilon sf j = epsilon h j * (1 / 2) ^ n" by (rule halved_trans)
  with invert_visits_halved [OF h(1)] show ?thesis by (rule halved_trans)
qed

lemma invert_init_epsilon:
  "epsilon (invert_init env w0 m0 p) j = epsilon0 p"
  by (simp add: invert_init_def Let_def split_def)

lemma invert_visits_loop:
  assumes "invert_visits env p s0 s"
  shows "invert_loop env p s = invert_loop env p s0"
  using assms
proof (induction rule: invert_visits.induct)
  case start
  show ?case ..
next
  case (retry s s')
  have it: "iterations s' = iterations s" by (rule attempt_frame(7) [OF retry.hyps(2)])
  from retry.hyps(2)
  have "validate_loop env (iterations s mod 2) s = validate_loop env (iterations s mod 2) s'"
    by (subst validate_loop.simps) simp
  then have "invert_loop env p s' = invert_loop env p s"
    unfolding invert_loop.simps [of env p s'] invert_loop.simps [of env p s] it by simp
  with retry.IH show ?case by simp
next
  case (pass s s1 s2)
  from pass.hyps(2) have "validate_loop env (iterations s mod 2) s = Some s1"
    by (subst validate_loop.simps) simp
  from invert_loop_pass [OF this pass.hyps(3)] pass.hyps(4)
  have "invert_loop env p s = invert_loop env p s2" by simp
  with pass.IH show ?case by simp
qed

subsection \<open>Termination\<close>




subsection \<open>The printed misfits\<close>

lemma misfits_append: "misfits (xs @ ys) = misfits xs @ misfits ys"
  by (induction xs rule: misfits.induct) simp_all

lemma invert_init_facts:
  "iterations (invert_init env w0 m0 p) = 0"
  "model (invert_init env w0 m0 p) = m0"
  "misfits (out (invert_init env w0 m0 p)) = [misfit_of env p w0 m0]"
  "like (invert_init env w0 m0 p) = misfit_of env p w0 m0"
  "work (invert_init env w0 m0 p) =
     snd (likelihood_love env w0 m0 (reference p) (damping p) (posterior p) (threshold p)
            (order p) (highorder p) (boundaryorder p) (scale p) frequency_thin)"
  by (simp_all add: invert_init_def misfit_of_def Let_def split_def)



lemma sorted_desc_last:
  fixes xs :: "double list"
  assumes "sorted_wrt (\<ge>) xs" and "y \<in> set xs"
  shows "y = last xs \<or> last xs \<le> y"
  using assms
proof (induction xs)
  case Nil
  then show ?case by simp
next
  case (Cons x xs)
  show ?case
  proof (cases "xs = []")
    case True
    with Cons.prems show ?thesis by simp
  next
    case False
    then have "last xs \<in> set xs" by simp
    with Cons False show ?thesis by auto
  qed
qed

lemma sorted_desc_snoc:
  fixes xs :: "double list"
  assumes "sorted_wrt (\<ge>) xs" and "x \<le> last xs"
  shows "sorted_wrt (\<ge>) (xs @ [x])"
proof -
  have "x \<le> y" if "y \<in> set xs" for y
    using sorted_desc_last [OF assms(1) that] assms(2) by (auto intro: double_le_trans)
  with assms(1) show ?thesis by (simp add: sorted_wrt_append)
qed

lemma evaluated_misfit:
  "fst (evaluated env p s) =
     misfit_of env p (work s) (copy_model env (model_v_proposed s) (model s))"
  by (simp add: evaluated_def misfit_of_def)

lemma run_inv_init:
  assumes "pure_likelihood env p"
  shows "run_inv env p w0 (invert_init env w0 m0 p)"
  using assms by (simp add: run_inv_def invert_init_facts pure_likelihood_def)

lemma run_inv_attempt:
  assumes "attempt env m s = (valid, s')" and "run_inv env p w0 s"
  shows "run_inv env p w0 s'"
  using assms(2) attempt_frame [OF assms(1)] unfolding run_inv_def by auto

lemma run_inv_evaluate:
  assumes pure: "pure_likelihood env p" and lens: "copy_restores env"
    and nonan: "\<forall>m. misfit_of env p w0 m \<noteq> NaN"
    and inv: "run_inv env p w0 s"
    and snap: "model_v s = fst (copy_vector env (model s) v k)"
    and ev: "evaluate env p m s = (brk, s')"
  shows "(\<not> brk \<longrightarrow> run_inv env p w0 s') \<and> sorted_wrt (\<ge>) (misfits (out s'))"
proof -
  let ?new = "fst (evaluated env p s)"
  let ?written = "copy_model env (model_v_proposed s) (model s)"
  from inv have w: "\<And>m. misfit_of env p (work s) m = misfit_of env p w0 m"
    and l: "like s = misfit_of env p w0 (model s)"
    and ne: "misfits (out s) \<noteq> []"
    and la: "like s = last (misfits (out s))"
    and so: "sorted_wrt (\<ge>) (misfits (out s))"
    unfolding run_inv_def by blast+
  have new: "?new = misfit_of env p w0 ?written"
    by (simp add: evaluated_misfit w)
  have w1: "misfit_of env p (snd (evaluated env p s)) m = misfit_of env p w0 m" for m
    using pure w by (simp add: evaluated_def pure_likelihood_def)
  consider (acc) "\<not> like s < ?new"
    | (ext) "like s < ?new" "epsilon s m < EPSILON_MIN env"
    | (bck) "like s < ?new" "\<not> epsilon s m < EPSILON_MIN env"
    by blast
  then show ?thesis
  proof cases
    case acc
    from evaluate_accept [OF acc, of m] ev have s': "s' =
       s\<lparr>model := ?written, last_like := like s, like := ?new,
          work := snd (evaluated env p s),
          out := out s @ [Progress (iterations s) ?new (epsilon s m)],
          iterations := iterations s + 1\<rparr>"
      by simp
    from nonan l new have "like s \<noteq> NaN" "?new \<noteq> NaN" by simp_all
    from double_not_less [OF acc this] la have "?new \<le> last (misfits (out s))" by simp
    from sorted_desc_snoc [OF so this]
    have "sorted_wrt (\<ge>) (misfits (out s'))" by (simp add: s' misfits_append)
    moreover have "run_inv env p w0 s'"
      using \<open>sorted_wrt (\<ge>) (misfits (out s'))\<close> new w1
      by (simp add: run_inv_def s' misfits_append)
    ultimately show ?thesis by simp
  next
    case ext
    from evaluate_exit [OF ext] ev so show ?thesis by (auto simp: misfits_append)
  next
    case bck
    let ?restored = "copy_model env (model_v s) ?written"
    let ?re = "likelihood_love env (snd (evaluated env p s)) ?restored (reference p)
       (damping p) (posterior p) (threshold p) (order p) (highorder p) (boundaryorder p)
       (scale p) frequency_thin"
    from evaluate_backtrack [OF bck] ev have s': "s' =
       s\<lparr>model := ?restored, last_like := like s, like := fst ?re, work := snd ?re,
          epsilon := (epsilon s)(m := epsilon s m * 0.5),
          out := out s @ [Backtracking (iterations s)]\<rparr>"
      and nb: "\<not> brk"
      by simp_all
    from lens snap have r: "?restored = model s" by (simp add: copy_restores_def)
    have "fst ?re = misfit_of env p (snd (evaluated env p s)) ?restored"
      by (simp add: misfit_of_def)
    with w1 r l have l': "fst ?re = like s" by simp
    have w2: "misfit_of env p (snd ?re) m = misfit_of env p w0 m" for m
      using pure w1 by (simp add: pure_likelihood_def)
    have "run_inv env p w0 s'"
      using l' l r w2 ne la so by (simp add: run_inv_def s' misfits_append)
    moreover from so have "sorted_wrt (\<ge>) (misfits (out s'))" by (simp add: s' misfits_append)
    ultimately show ?thesis by simp
  qed
qed

lemma run_inv_visits:
  assumes pure: "pure_likelihood env p" and lens: "copy_restores env"
    and nonan: "\<forall>m. misfit_of env p w0 m \<noteq> NaN"
    and "invert_visits env p (invert_init env w0 m0 p) s"
  shows "run_inv env p w0 s"
  using assms(4)
proof (induction rule: invert_visits.induct)
  case start
  show ?case by (rule run_inv_init [OF pure])
next
  case (retry s s')
  from retry.hyps(2) retry.IH show ?case by (rule run_inv_attempt)
next
  case (pass s s1 s2)
  from pass.hyps(2) pass.IH have i1: "run_inv env p w0 s1" by (rule run_inv_attempt)
  from attempt_snapshot [OF pass.hyps(2)] attempt_frame(1) [OF pass.hyps(2)]
  have "model_v s1 = fst (copy_vector env (model s1) (model_v s) (model_mask s))"
    by (metis fst_conv)
  from run_inv_evaluate [OF pure lens nonan i1 this pass.hyps(3)] show ?case by simp
qed


section \<open>The properties\<close>

text \<open>
  C1. In a pass of the loop, let \<open>s1\<close> be the state in which the inner loop ends. When
  the newly evaluated misfit is strictly greater than the last accepted misfit (the value
  of \<open>like\<close> with which the pass starts, which line 536 copies to \<open>last_like\<close>) and
  \<open>epsilon[m]\<close> is not below \<open>EPSILON_MIN\<close>, the rest of the body (\<open>evaluate\<close>) does not
  leave by \<open>break\<close> and returns the state \<open>s2\<close> in which the driver has halved
  \<open>epsilon[m]\<close>, restored the model from \<open>model_v\<close>, the snapshot that \<open>copy\<close> took of
  the model before the step, recomputed the misfit at that restored model with
  \<open>likelihood_love\<close>, printed "Backtracking" and not incremented the counter; the loop
  goes on from that state, which is the next one the run visits while the counter is
  below \<open>maxiterations\<close>.
\<close>

theorem backtrack_pass:
  assumes "validate_loop env (iterations s mod 2) s = Some s1"
    and "like s1 < fst (evaluated env p s1)"
    and "\<not> epsilon s1 (iterations s mod 2) < EPSILON_MIN env"
  shows "\<exists>s2 v k.
      evaluate env p (iterations s mod 2) s1 = (False, s2) \<and>
      invert_loop env p s =
        (if int (iterations s) < maxiterations p then invert_loop env p s2 else Some s2) \<and>
      (int (iterations s) < maxiterations p \<longrightarrow> invert_visits env p s s2) \<and>
      like s1 = like s \<and> last_like s2 = like s \<and>
      model_v s1 = fst (copy_vector env (model s) v k) \<and>
      epsilon s2 = (epsilon s1)(iterations s mod 2 := epsilon s1 (iterations s mod 2) * 0.5) \<and>
      model s2 = copy_model env (model_v s1) (copy_model env (model_v_proposed s1) (model s)) \<and>
      (like s2, work s2) =
         likelihood_love env (snd (evaluated env p s1)) (model s2) (reference p) (damping p)
           (posterior p) (threshold p) (order p) (highorder p) (boundaryorder p) (scale p)
           frequency_thin \<and>
      iterations s2 = iterations s \<and>
      out s2 = out s @ [Backtracking (iterations s)]"
proof -
  let ?m = "iterations s mod 2"
  from validate_loop_last [OF assms(1)] obtain h where
    h: "attempt env ?m h = (True, s1)" "model h = model s" "like h = like s"
      "iterations h = iterations s" "out h = out s"
    by blast
  note fr = attempt_frame [OF h(1)] and sn = attempt_snapshot [OF h(1)]
  from sn h(2) have mv: "model_v s1 = fst (copy_vector env (model s) (model_v h) (model_mask h))"
    by (metis fst_conv)
  note ev = evaluate_backtrack [OF assms(2) assms(3)]
  define s2 where "s2 = snd (evaluate env p ?m s1)"
  from ev have pass: "evaluate env p ?m s1 = (False, s2)"
    by (simp add: s2_def)
  have loop: "invert_loop env p s =
      (if int (iterations s) < maxiterations p then invert_loop env p s2 else Some s2)"
    using invert_loop_pass [OF assms(1) pass] ev fr h
    by (simp add: s2_def)
  have "like s1 = like s \<and> last_like s2 = like s \<and>
      epsilon s2 = (epsilon s1)(?m := epsilon s1 ?m * 0.5) \<and>
      model s2 = copy_model env (model_v s1) (copy_model env (model_v_proposed s1) (model s)) \<and>
      (like s2, work s2) =
         likelihood_love env (snd (evaluated env p s1)) (model s2) (reference p) (damping p)
           (posterior p) (threshold p) (order p) (highorder p) (boundaryorder p) (scale p)
           frequency_thin \<and>
      iterations s2 = iterations s \<and>
      out s2 = out s @ [Backtracking (iterations s)]"
    using ev fr h by (simp add: s2_def)
  moreover have "invert_visits env p s s2" if "int (iterations s) < maxiterations p"
  proof -
    from validate_loop_visits [OF assms(1) refl invert_visits.start] obtain h' where
      h': "invert_visits env p s h'" "iterations h' = iterations s"
        "attempt env ?m h' = (True, s1)"
      by blast
    from ev fr h(4) have "iterations s2 = iterations s" by (simp add: s2_def)
    with that h' pass show ?thesis
      by (auto intro: invert_visits.pass [OF h'(1)])
  qed
  ultimately show ?thesis using pass loop mv by blast
qed

text \<open>
  The second pass of the small instance's run from 1.4: the quasi-Newton proposal 13/20
  has the misfit 49/400, greater than the accepted 1/100, with \<open>epsilon[1]\<close> at 1/8.
\<close>

theorem backtrack_pass_witness:
  "\<exists>s1 s2. validate_loop toy (iterations toy_head mod 2) toy_head = Some s1 \<and>
      like s1 = Val (1 / 100) \<and> fst (evaluated toy toy_params s1) = Val (49 / 400) \<and>
      like s1 < fst (evaluated toy toy_params s1) \<and>
      epsilon s1 1 = 1 / 8 \<and> \<not> epsilon s1 1 < EPSILON_MIN toy \<and>
      evaluate toy toy_params 1 s1 = (False, s2) \<and>
      invert_loop toy toy_params toy_head = invert_loop toy toy_params s2 \<and>
      epsilon s2 1 = 1 / 16 \<and> model s2 = 9 / 10 \<and> like s2 = Val (1 / 100) \<and>
      iterations s2 = 1 \<and>
      out s2 = [Init (Val (4 / 25)), Progress 0 (Val (1 / 100)) (1 / 2), Backtracking 1]"
proof -
  have v: "map_option (\<lambda>s1. (fst (evaluated toy toy_params s1), epsilon s1 (Suc 0),
        model_v s1, like s1))
      (validate_loop toy (iterations toy_head mod 2) toy_head)
      = Some (Val (49 / 400), 1 / 8, 9 / 10, Val (1 / 100))"
    by (simp add: validate_loop.simps attempt_def evaluated_def toy_def toy_params_def
        toy_head_def frequency_thin_def step_def PRIOR_MIN_def PRIOR_MAX_def)
  then obtain s1 where s1: "validate_loop toy (iterations toy_head mod 2) toy_head = Some s1"
    by (cases "validate_loop toy (iterations toy_head mod 2) toy_head") auto
  with v have f: "fst (evaluated toy toy_params s1) = Val (49 / 400)"
    "epsilon s1 (Suc 0) = 1 / 8" "model_v s1 = 9 / 10" "like s1 = Val (1 / 100)"
    by simp_all
  have m: "iterations toy_head mod 2 = 1" by (simp add: toy_head_def)
  have worse: "like s1 < fst (evaluated toy toy_params s1)"
    unfolding f by simp
  have floor: "\<not> epsilon s1 1 < EPSILON_MIN toy"
    by (simp add: f(2) toy_def)
  from floor m have floor': "\<not> epsilon s1 (iterations toy_head mod 2) < EPSILON_MIN toy"
    by simp
  from backtrack_pass [OF s1 worse floor'] obtain s2 where
    s2: "evaluate toy toy_params (iterations toy_head mod 2) s1 = (False, s2)"
    "invert_loop toy toy_params toy_head =
        (if int (iterations toy_head) < maxiterations toy_params
         then invert_loop toy toy_params s2 else Some s2)"
    "epsilon s2 = (epsilon s1)(iterations toy_head mod 2 :=
        epsilon s1 (iterations toy_head mod 2) * 0.5)"
    "model s2 = copy_model toy (model_v s1)
        (copy_model toy (model_v_proposed s1) (model toy_head))"
    "(like s2, work s2) =
         likelihood_love toy (snd (evaluated toy toy_params s1)) (model s2)
           (reference toy_params) (damping toy_params) (posterior toy_params)
           (threshold toy_params) (order toy_params) (highorder toy_params)
           (boundaryorder toy_params) (scale toy_params) frequency_thin"
    "iterations s2 = iterations toy_head"
    "out s2 = out toy_head @ [Backtracking (iterations toy_head)]"
    by blast
  have c0: "evaluate toy toy_params 1 s1 = (False, s2)"
    using s2(1) m by simp
  have c1: "invert_loop toy toy_params toy_head = invert_loop toy toy_params s2"
    using s2(2) by (simp add: toy_head_def toy_params_def)
  have c2: "epsilon s2 1 = 1 / 16"
    unfolding s2(3) m by (simp add: f(2))
  have c3: "model s2 = 9 / 10"
    unfolding s2(4) by (simp add: toy_def f(3))
  have "like s2 = Val ((model s2 - 1) * (model s2 - 1))"
    using s2(5) by (simp add: toy_def)
  then have c4: "like s2 = Val (1 / 100)"
    unfolding c3 by simp
  have c5: "iterations s2 = 1"
    unfolding s2(6) by (simp add: toy_head_def)
  have c6: "out s2 = [Init (Val (4 / 25)), Progress 0 (Val (1 / 100)) (1 / 2), Backtracking 1]"
    unfolding s2(7) by (simp add: toy_head_def)
  have e1: "epsilon s1 1 = 1 / 8"
    using f(2) by simp
  from s1 f(4) f(1) worse e1 floor c0 c1 c2 c3 c4 c5 c6 show ?thesis by blast
qed

text \<open>
  C2, amended. Let \<open>likelihood_love\<close> be pure with a misfit that is never NaN, and let
  \<open>copy\<close> restore what it read. In every pass of a run (\<open>s\<close> is a state the run visits,
  \<open>s1\<close> the state with the valid proposal, \<open>s2\<close> the state after the evaluation):
  \<open>like\<close> at the start of the pass is the last misfit printed, that is the last accepted
  one or the initial one; the misfits printed up to the end of the pass do not increase;
  the pass is accepted (the counter is incremented) exactly when the evaluated misfit is
  not greater than that last accepted misfit, and then \<open>like \<le> last_like\<close>; a backtrack
  occurs exactly when the evaluated misfit is greater and \<open>epsilon[m]\<close> is not below
  \<open>EPSILON_MIN\<close>, and it restores the model and its misfit; when the misfit is greater
  and \<open>epsilon[m]\<close> is below \<open>EPSILON_MIN\<close> the loop exits and does not backtrack. The
  misfits a terminating run has printed do not increase.
\<close>

theorem accepted_misfits_nonincreasing:
  assumes pure: "pure_likelihood env p" and lens: "copy_restores env"
    and nonan: "\<forall>m. misfit_of env p w0 m \<noteq> NaN"
    and vis: "invert_visits env p (invert_init env w0 m0 p) s"
    and att: "attempt env (iterations s mod 2) s = (True, s1)"
    and ev: "evaluate env p (iterations s mod 2) s1 = (brk, s2)"
  shows "like s = last (misfits (out s)) \<and>
    fst (evaluated env p s1) =
      misfit_of env p w0 (copy_model env (model_v_proposed s1) (model s)) \<and>
    sorted_wrt (\<ge>) (misfits (out s2)) \<and>
    ((iterations s2 = Suc (iterations s)) = (fst (evaluated env p s1) \<le> like s)) \<and>
    (fst (evaluated env p s1) \<le> like s \<longrightarrow>
       out s2 = out s @ [Progress (iterations s) (fst (evaluated env p s1))
                           (epsilon s1 (iterations s mod 2))] \<and>
       like s2 = fst (evaluated env p s1) \<and> last_like s2 = like s) \<and>
    ((out s2 = out s @ [Backtracking (iterations s)]) =
       (like s < fst (evaluated env p s1) \<and>
        \<not> epsilon s1 (iterations s mod 2) < EPSILON_MIN env)) \<and>
    ((out s2 = out s @ [Exiting (iterations s)]) =
       (like s < fst (evaluated env p s1) \<and>
        epsilon s1 (iterations s mod 2) < EPSILON_MIN env)) \<and>
    (like s < fst (evaluated env p s1) \<and>
       \<not> epsilon s1 (iterations s mod 2) < EPSILON_MIN env \<longrightarrow>
       model s2 = model s \<and> like s2 = like s) \<and>
    (\<forall>b sf. invert env w0 m0 p = Some (b, sf) \<longrightarrow> sorted_wrt (\<ge>) (misfits (out sf)))"
proof -
  let ?m = "iterations s mod 2"
  let ?new = "fst (evaluated env p s1)"
  note fr = attempt_frame [OF att]
  from run_inv_visits [OF pure lens nonan vis] have inv: "run_inv env p w0 s" .
  from att inv have inv1: "run_inv env p w0 s1" by (rule run_inv_attempt)
  from attempt_snapshot [OF att] fr(1)
  have snap: "model_v s1 = fst (copy_vector env (model s1) (model_v s) (model_mask s))"
    by (metis fst_conv)
  from inv have a: "like s = last (misfits (out s))"
    unfolding run_inv_def by blast
  from inv1 have "\<And>m. misfit_of env p (work s1) m = misfit_of env p w0 m"
    unfolding run_inv_def by blast
  with fr have b: "?new = misfit_of env p w0 (copy_model env (model_v_proposed s1) (model s))"
    by (simp add: evaluated_misfit)
  note ri = run_inv_evaluate [OF pure lens nonan inv1 snap ev]
  from inv have "like s = misfit_of env p w0 (model s)"
    unfolding run_inv_def by blast
  with nonan b fr(5) have nn: "like s \<noteq> NaN" "like s1 = like s" "?new \<noteq> NaN"
    by simp_all
  from ri have c: "sorted_wrt (\<ge>) (misfits (out s2))" by simp
  consider (acc) "\<not> like s1 < ?new"
    | (ext) "like s1 < ?new" "epsilon s1 ?m < EPSILON_MIN env"
    | (bck) "like s1 < ?new" "\<not> epsilon s1 ?m < EPSILON_MIN env"
    by blast
  then have d: "((iterations s2 = Suc (iterations s)) = (?new \<le> like s)) \<and>
    (?new \<le> like s \<longrightarrow>
       out s2 = out s @ [Progress (iterations s) ?new (epsilon s1 ?m)] \<and>
       like s2 = ?new \<and> last_like s2 = like s) \<and>
    ((out s2 = out s @ [Backtracking (iterations s)]) =
       (like s < ?new \<and> \<not> epsilon s1 ?m < EPSILON_MIN env)) \<and>
    ((out s2 = out s @ [Exiting (iterations s)]) =
       (like s < ?new \<and> epsilon s1 ?m < EPSILON_MIN env)) \<and>
    (like s < ?new \<and> \<not> epsilon s1 ?m < EPSILON_MIN env \<longrightarrow>
       model s2 = model s \<and> like s2 = like s)"
  proof cases
    case acc
    from double_not_less [OF acc] nn have le: "?new \<le> like s" "\<not> like s < ?new"
      using acc by simp_all
    from evaluate_accept [OF acc, of ?m] ev fr le show ?thesis by auto
  next
    case ext
    from double_less_not_le [OF ext(1)] nn ext(1) have nle: "\<not> ?new \<le> like s" "like s < ?new"
      by simp_all
    from evaluate_exit [OF ext] ev fr ext(2) nle show ?thesis by auto
  next
    case bck
    from double_less_not_le [OF bck(1)] nn bck(1) have nle: "\<not> ?new \<le> like s" "like s < ?new"
      by simp_all
    from evaluate_backtrack [OF bck] ev have nb: "\<not> brk"
      and m2: "model s2 = copy_model env (model_v s1)
        (copy_model env (model_v_proposed s1) (model s1))"
      by auto
    from lens snap m2 fr(1) have r: "model s2 = model s" by (simp add: copy_restores_def)
    from ri nb have "run_inv env p w0 s2" by simp
    with inv r have "like s2 = like s" by (simp add: run_inv_def)
    with r evaluate_backtrack [OF bck] ev fr bck(2) nle show ?thesis by auto
  qed
  have e: "sorted_wrt (\<ge>) (misfits (out sf))" if run: "invert env w0 m0 p = Some (b, sf)" for b sf
  proof -
    from invert_final [OF run] obtain h h1 brk' where
      h: "invert_visits env p (invert_init env w0 m0 p) h"
        "attempt env (iterations h mod 2) h = (True, h1)"
        "evaluate env p (iterations h mod 2) h1 = (brk', sf)"
      by blast
    from h(2) run_inv_visits [OF pure lens nonan h(1)] have i1: "run_inv env p w0 h1"
      by (rule run_inv_attempt)
    from attempt_snapshot [OF h(2)] attempt_frame(1) [OF h(2)]
    have "model_v h1 = fst (copy_vector env (model h1) (model_v h) (model_mask h))"
      by (metis fst_conv)
    from run_inv_evaluate [OF pure lens nonan i1 this h(3)] show ?thesis by simp
  qed
  from a b c d e show ?thesis by blast
qed

text \<open>The first accepted pass of the small instance's run from 1.4.\<close>

theorem accepted_misfits_nonincreasing_witness:
  "pure_likelihood toy toy_params \<and> copy_restores toy \<and>
   misfit_of toy toy_params () (9 / 10) = Val (1 / 100) \<and>
   like (snd (attempt toy 0 (invert_init toy () (14 / 10) toy_params))) = Val (4 / 25) \<and>
   misfits (out (snd (attempt toy 0 (invert_init toy () (14 / 10) toy_params))))
     = [Val (4 / 25)] \<and>
   misfits (out toy_head) = [Val (4 / 25), Val (1 / 100)] \<and>
   sorted_wrt (\<ge>) (misfits (out toy_head))"
proof -
  let ?init = "invert_init toy () (14 / 10) toy_params"
  let ?rej = "snd (attempt toy 0 ?init)"
  let ?val = "snd (attempt toy 0 ?rej)"
  have pure: "pure_likelihood toy toy_params"
    by (simp add: pure_likelihood_def misfit_of_def toy_def)
  have lens: "copy_restores toy"
    by (simp add: copy_restores_def toy_def)
  have nonan: "\<forall>m. misfit_of toy toy_params () m \<noteq> NaN"
    by (simp add: misfit_of_def toy_def)
  have a0: "attempt toy (iterations ?init mod 2) ?init = (False, ?rej)"
    by (simp add: attempt_def invert_init_def toy_def toy_params_def frequency_thin_def
        step_def PRIOR_MIN_def PRIOR_MAX_def)
  have vis: "invert_visits toy toy_params ?init ?rej"
    by (rule invert_visits.retry [OF invert_visits.start a0])
  have att: "attempt toy (iterations ?rej mod 2) ?rej = (True, ?val)"
    by (simp add: attempt_def invert_init_def toy_def toy_params_def frequency_thin_def
        step_def PRIOR_MIN_def PRIOR_MAX_def)
  have ev: "evaluate toy toy_params (iterations ?rej mod 2) ?val = (False, toy_head)"
    by (simp add: evaluate_def attempt_def invert_init_def toy_def toy_params_def
        frequency_thin_def step_def PRIOR_MIN_def PRIOR_MAX_def toy_head_def)
  from accepted_misfits_nonincreasing [OF pure lens nonan vis att ev]
  have "like ?rej = last (misfits (out ?rej))" and "sorted_wrt (\<ge>) (misfits (out toy_head))"
    by blast+
  moreover have "misfit_of toy toy_params () (9 / 10) = Val (1 / 100)"
    by (simp add: misfit_of_def toy_def)
  moreover have "misfits (out ?rej) = [Val (4 / 25)]"
    by (simp add: attempt_def invert_init_def toy_def toy_params_def frequency_thin_def
        step_def PRIOR_MIN_def PRIOR_MAX_def)
  moreover have "misfits (out toy_head) = [Val (4 / 25), Val (1 / 100)]"
    by (simp add: toy_head_def)
  ultimately show ?thesis using pure lens by simp
qed

text \<open>
  C2 as stated fails in two ways. A misfit greater than the last accepted one does not
  always give a backtrack: the last pass of the small instance's run from 1.4 evaluates
  81/1600, greater than the accepted 1/100, and exits. And line 557 accepts whatever is
  not greater: with the misfit that is NaN below 1, both passes of the run from 1.4 with
  two iterations are accepted with the misfit NaN, which is not below or equal to the
  initial 4/25.
\<close>

theorem worse_misfit_without_backtrack:
  "map_option (out \<circ> snd) (invert toy () (14 / 10) toy_params)
     = Some [Init (Val (4 / 25)), Progress 0 (Val (1 / 100)) (1 / 2), Backtracking 1,
             Exiting 1] \<and>
   map_option (last_like \<circ> snd) (invert toy () (14 / 10) toy_params) = Some (Val (1 / 100)) \<and>
   map_option (like \<circ> snd) (invert toy () (14 / 10) toy_params) = Some (Val (81 / 1600)) \<and>
   map_option (out \<circ> snd) (invert toy_nan () (14 / 10) (toy_params\<lparr>maxiterations := 2\<rparr>))
     = Some [Init (Val (4 / 25)), Progress 0 NaN (1 / 2), Progress 1 NaN (1 / 8)] \<and>
   \<not> NaN \<le> Val (4 / 25)"
  by (simp add: invert_def invert_loop.simps validate_loop.simps evaluate_def attempt_def
      invert_init_def toy_nan_def toy_def toy_params_def frequency_thin_def step_def
      PRIOR_MIN_def PRIOR_MAX_def)




text \<open>
  C4. For each strategy index, \<open>epsilon[m]\<close> never increases over a run of \<open>invert\<close>
  with the positive (here: non-negative) step size that \<open>main\<close> passes: it starts as
  \<open>_epsilon\<close> and every later value is an earlier one times a power of 1/2. Stated for
  any two states \<open>s\<close>, \<open>s'\<close> that the run visits at the top of the inner body, \<open>s'\<close>
  after \<open>s\<close>, and for the state \<open>sf\<close> in which a terminating run ends. The only
  multiplications are those of a rejected proposal and of a backtrack.
\<close>

theorem epsilon_never_increases:
  assumes "0 \<le> epsilon0 p"
    and "invert_visits env p (invert_init env w0 m0 p) s"
    and "invert_visits env p s s'"
  shows "epsilon (invert_init env w0 m0 p) j = epsilon0 p \<and>
    (\<exists>n. epsilon s j = epsilon0 p * (1 / 2) ^ n) \<and>
    (\<exists>n. epsilon s' j = epsilon s j * (1 / 2) ^ n) \<and>
    epsilon s' j \<le> epsilon s j \<and> epsilon s j \<le> epsilon0 p \<and>
    (\<forall>b sf. invert env w0 m0 p = Some (b, sf) \<longrightarrow>
       (\<exists>n. epsilon sf j = epsilon s' j * (1 / 2) ^ n) \<and> epsilon sf j \<le> epsilon s' j)"
proof -
  let ?s0 = "invert_init env w0 m0 p"
  have i: "epsilon ?s0 j = epsilon0 p" by (rule invert_init_epsilon)
  from invert_visits_halved [OF assms(2), of j] i
  have a: "\<exists>n. epsilon s j = epsilon0 p * (1 / 2) ^ n" by simp
  have b: "\<exists>n. epsilon s' j = epsilon s j * (1 / 2) ^ n"
    by (rule invert_visits_halved [OF assms(3)])
  note sa = halved_le [OF a assms(1)]
  note sb = halved_le [OF b sa(2)]
  have f: "(\<exists>n. epsilon sf j = epsilon s' j * (1 / 2) ^ n) \<and> epsilon sf j \<le> epsilon s' j"
    if run: "invert env w0 m0 p = Some (b, sf)" for b sf
  proof -
    from run have "invert_loop env p ?s0 = Some sf"
      by (auto simp: invert_def split: option.splits)
    moreover have "invert_loop env p s' = invert_loop env p ?s0"
      by (rule invert_visits_loop [OF invert_visits_trans [OF assms(3) assms(2)]])
    ultimately have "invert_loop env p s' = Some sf" by simp
    then have c: "\<exists>n. epsilon sf j = epsilon s' j * (1 / 2) ^ n"
      by (rule invert_loop_halved)
    with halved_le(1) [OF c sb(2)] show ?thesis by simp
  qed
  from i a b sa(1) sb(1) f show ?thesis by blast
qed

text \<open>In the small instance's run from 1.4, between the start and the second pass.\<close>

theorem epsilon_never_increases_witness:
  "0 \<le> epsilon0 toy_params \<and>
   epsilon (invert_init toy () (14 / 10) toy_params) 0 = 1 \<and>
   epsilon toy_head 0 = 1 / 2 \<and>
   epsilon toy_head 0 \<le> epsilon (invert_init toy () (14 / 10) toy_params) 0 \<and>
   epsilon toy_head 1 \<le> epsilon (invert_init toy () (14 / 10) toy_params) 1"
proof -
  have p: "0 \<le> epsilon0 toy_params" by (simp add: toy_params_def)
  note t = epsilon_never_increases [OF p invert_visits.start toy_head_visited]
  from t [of 0] t [of 1]
  have "epsilon toy_head 0 \<le> epsilon (invert_init toy () (14 / 10) toy_params) 0"
    "epsilon toy_head 1 \<le> epsilon (invert_init toy () (14 / 10) toy_params) 1"
    by blast+
  moreover have "epsilon (invert_init toy () (14 / 10) toy_params) 0 = 1"
    by (simp add: invert_init_def toy_def toy_params_def)
  moreover have "epsilon toy_head 0 = 1 / 2"
    by (simp add: toy_head_def)
  ultimately show ?thesis using p by blast
qed

text \<open>
  C5, amended. A proposal that \<open>validate\<close> rejects leaves the model as it was, and with
  it the by-reference objects of \<open>likelihood_love\<close>, \<open>Cm\<close>, \<open>model_0\<close>, both misfits, the
  counter and the output: one rejected pass of the inner body halves \<open>epsilon[m]\<close>,
  rewrites \<open>model_v_proposed\<close> and rewrites \<open>model_v\<close> and \<open>model_mask\<close> by the \<open>copy\<close> of
  line 509. When the inner loop ends, the model is still the one it started with, the
  other \<open>epsilon\<close> is untouched, \<open>epsilon[m]\<close> has been halved some number of times, and
  the proposal is valid: the model is written only after that (line 531).
\<close>

theorem rejected_proposal_leaves_model:
  "(attempt env m s = (False, s') \<longrightarrow>
      model s' = model s \<and> work s' = work s \<and> Cm s' = Cm s \<and> model_0 s' = model_0 s \<and>
      like s' = like s \<and> last_like s' = last_like s \<and> iterations s' = iterations s \<and>
      out s' = out s \<and> epsilon s' = (epsilon s)(m := epsilon s m * 0.5) \<and>
      (model_v s', model_mask s') = copy_vector env (model s) (model_v s) (model_mask s) \<and>
      \<not> validate env (model_v_proposed s') (model_mask s') PRIOR_MIN PRIOR_MAX) \<and>
   (validate_loop env m s = Some s1 \<longrightarrow>
      model s1 = model s \<and> work s1 = work s \<and> Cm s1 = Cm s \<and> model_0 s1 = model_0 s \<and>
      like s1 = like s \<and> last_like s1 = last_like s \<and> iterations s1 = iterations s \<and>
      out s1 = out s \<and> (\<forall>j. j \<noteq> m \<longrightarrow> epsilon s1 j = epsilon s j) \<and>
      (\<exists>n. epsilon s1 m = epsilon s m * (1 / 2) ^ n) \<and>
      (\<exists>v k. (model_v s1, model_mask s1) = copy_vector env (model s) v k) \<and>
      validate env (model_v_proposed s1) (model_mask s1) PRIOR_MIN PRIOR_MAX)"
proof (rule conjI; rule impI)
  assume a: "attempt env m s = (False, s')"
  note fr = attempt_frame [OF a] and ep = attempt_epsilon [OF a] and sn = attempt_snapshot [OF a]
    and va = attempt_valid [OF a]
  from fr ep sn va show "model s' = model s \<and> work s' = work s \<and> Cm s' = Cm s \<and>
      model_0 s' = model_0 s \<and>
      like s' = like s \<and> last_like s' = last_like s \<and> iterations s' = iterations s \<and>
      out s' = out s \<and> epsilon s' = (epsilon s)(m := epsilon s m * 0.5) \<and>
      (model_v s', model_mask s') = copy_vector env (model s) (model_v s) (model_mask s) \<and>
      \<not> validate env (model_v_proposed s') (model_mask s') PRIOR_MIN PRIOR_MAX"
    by simp
next
  assume v: "validate_loop env m s = Some s1"
  from validate_loop_last [OF v] obtain h n where
    h: "attempt env m h = (True, s1)" "model h = model s" "work h = work s"
      "Cm h = Cm s" "model_0 h = model_0 s" "like h = like s" "last_like h = last_like s"
      "iterations h = iterations s" "out h = out s"
      "\<forall>j. j \<noteq> m \<longrightarrow> epsilon h j = epsilon s j" "epsilon h m = epsilon s m * (1 / 2) ^ n"
    by blast
  note fr = attempt_frame [OF h(1)] and ep = attempt_epsilon [OF h(1)]
    and sn = attempt_snapshot [OF h(1)] and va = attempt_valid [OF h(1)]
  from ep have ep': "epsilon s1 = epsilon h" by simp
  have E: "\<exists>n. epsilon s1 m = epsilon s m * (1 / 2) ^ n"
    unfolding ep' using h(11) by (rule exI)
  have S: "\<exists>v k. (model_v s1, model_mask s1) = copy_vector env (model s) v k"
    using sn h(2) by metis
  have "model s1 = model s \<and> work s1 = work s \<and> Cm s1 = Cm s \<and> model_0 s1 = model_0 s \<and>
      like s1 = like s \<and> last_like s1 = last_like s \<and> iterations s1 = iterations s \<and>
      out s1 = out s \<and> (\<forall>j. j \<noteq> m \<longrightarrow> epsilon s1 j = epsilon s j) \<and>
      validate env (model_v_proposed s1) (model_mask s1) PRIOR_MIN PRIOR_MAX"
    using fr h(2-10) ep' va by simp
  with E S show "model s1 = model s \<and> work s1 = work s \<and> Cm s1 = Cm s \<and> model_0 s1 = model_0 s \<and>
      like s1 = like s \<and> last_like s1 = last_like s \<and> iterations s1 = iterations s \<and>
      out s1 = out s \<and> (\<forall>j. j \<noteq> m \<longrightarrow> epsilon s1 j = epsilon s j) \<and>
      (\<exists>n. epsilon s1 m = epsilon s m * (1 / 2) ^ n) \<and>
      (\<exists>v k. (model_v s1, model_mask s1) = copy_vector env (model s) v k) \<and>
      validate env (model_v_proposed s1) (model_mask s1) PRIOR_MIN PRIOR_MAX"
    by blast
qed

text \<open>The first proposal of the small instance's run from 1.4 is rejected.\<close>

theorem rejected_proposal_leaves_model_witness:
  "fst (attempt toy 0 (invert_init toy () (14 / 10) toy_params)) = False \<and>
   model (invert_init toy () (14 / 10) toy_params) = 14 / 10 \<and>
   model (snd (attempt toy 0 (invert_init toy () (14 / 10) toy_params))) = 14 / 10 \<and>
   map_option (\<lambda>s. (model s, model_v_proposed s, epsilon s 0))
     (validate_loop toy 0 (invert_init toy () (14 / 10) toy_params))
     = Some (14 / 10, 9 / 10, 1 / 2)"
proof -
  let ?s0 = "invert_init toy () (14 / 10) toy_params"
  have m0: "model ?s0 = 14 / 10"
    by (simp add: invert_init_def toy_def toy_params_def)
  have rej: "fst (attempt toy 0 ?s0) = False"
    by (simp add: attempt_def invert_init_def toy_def toy_params_def frequency_thin_def
        step_def PRIOR_MIN_def PRIOR_MAX_def)
  then have a: "attempt toy 0 ?s0 = (False, snd (attempt toy 0 ?s0))"
    by (cases "attempt toy 0 ?s0") simp
  have pe: "map_option (\<lambda>s. (model_v_proposed s, epsilon s 0)) (validate_loop toy 0 ?s0)
      = Some (9 / 10, 1 / 2)"
    by (simp add: validate_loop.simps attempt_def invert_init_def toy_def toy_params_def
        frequency_thin_def step_def PRIOR_MIN_def PRIOR_MAX_def)
  then obtain s1 where v: "validate_loop toy 0 ?s0 = Some s1"
    by (cases "validate_loop toy 0 ?s0") auto
  from rejected_proposal_leaves_model [of toy 0 ?s0 "snd (attempt toy 0 ?s0)" s1] a v
  have "model (snd (attempt toy 0 ?s0)) = model ?s0" and "model s1 = model ?s0"
    by simp_all
  with m0 rej pe v show ?thesis by simp
qed

text \<open>
  C5 as stated fails in that the inner loop writes more than \<open>epsilon[m]\<close> and
  \<open>model_v_proposed\<close>: the rejected first pass of that run replaces the freshly resized
  \<open>model_v\<close> by the model's parameters.
\<close>

theorem retry_rewrites_snapshot:
  "fst (attempt toy 0 (invert_init toy () (14 / 10) toy_params)) = False \<and>
   model_v (invert_init toy () (14 / 10) toy_params) = 0 \<and>
   model_v (snd (attempt toy 0 (invert_init toy () (14 / 10) toy_params))) = 14 / 10"
  by (simp add: attempt_def invert_init_def toy_def toy_params_def frequency_thin_def
      step_def PRIOR_MIN_def PRIOR_MAX_def)

text \<open>
  C6. When \<open>invert\<close> leaves by the epsilon floor (its last output is "Exiting"), the model
  holds the proposal that gave the worse misfit: it is the valid proposal
  \<open>model_v_proposed\<close> written by \<open>copy\<close> into the model \<open>m1\<close> of before the step, whose
  snapshot \<open>model_v\<close> still is; \<open>like\<close> is the misfit of that model and exceeds
  \<open>last_like\<close>. Nothing is restored.
\<close>

theorem floor_exit_leaves_proposal:
  assumes "invert env w0 m0 p = Some (b, s')" and "last (out s') = Exiting i"
  shows "\<exists>m1 v k w.
      model s' = copy_model env (model_v_proposed s') m1 \<and>
      model_v s' = fst (copy_vector env m1 v k) \<and>
      validate env (model_v_proposed s') (model_mask s') PRIOR_MIN PRIOR_MAX \<and>
      (like s', work s') =
         likelihood_love env w (model s') (reference p) (damping p) (posterior p)
           (threshold p) (order p) (highorder p) (boundaryorder p) (scale p) frequency_thin \<and>
      last_like s' < like s' \<and>
      epsilon s' (iterations s' mod 2) < EPSILON_MIN env \<and>
      i = iterations s'"
proof -
  from invert_final [OF assms(1)] obtain h s1 brk where
    a: "attempt env (iterations h mod 2) h = (True, s1)"
    and e: "evaluate env p (iterations h mod 2) s1 = (brk, s')"
    by blast
  let ?m = "iterations h mod 2"
  note fr = attempt_frame [OF a] and sn = attempt_snapshot [OF a] and va = attempt_valid [OF a]
  from sn have mv: "model_v s1 = fst (copy_vector env (model h) (model_v h) (model_mask h))"
    by (metis fst_conv)
  show ?thesis
  proof (cases "like s1 < fst (evaluated env p s1)")
    case False
    from evaluate_accept [OF False, of ?m] e assms(2) show ?thesis by auto
  next
    case worse: True
    show ?thesis
    proof (cases "epsilon s1 ?m < EPSILON_MIN env")
      case False
      from evaluate_backtrack [OF worse False] e assms(2) show ?thesis by auto
    next
      case True
      from evaluate_exit [OF worse True] e have s': "s' =
        s1\<lparr>model := copy_model env (model_v_proposed s1) (model s1), last_like := like s1,
            like := fst (evaluated env p s1), work := snd (evaluated env p s1),
            out := out s1 @ [Exiting (iterations s1)]\<rparr>"
        by simp
      have "model s' = copy_model env (model_v_proposed s') (model h) \<and>
        model_v s' = fst (copy_vector env (model h) (model_v h) (model_mask h)) \<and>
        validate env (model_v_proposed s') (model_mask s') PRIOR_MIN PRIOR_MAX \<and>
        (like s', work s') =
           likelihood_love env (work s1) (model s') (reference p) (damping p) (posterior p)
             (threshold p) (order p) (highorder p) (boundaryorder p) (scale p) frequency_thin \<and>
        last_like s' < like s' \<and>
        epsilon s' (iterations s' mod 2) < EPSILON_MIN env \<and>
        i = iterations s'"
        using s' fr mv va worse True assms(2) by (simp add: evaluated_def)
      then show ?thesis by blast
    qed
  qed
qed

text \<open>
  The run of the small instance from 1.4 leaves at the floor with the model at the
  rejected proposal 31/40, the snapshot at 9/10.
\<close>

theorem floor_exit_leaves_proposal_witness:
  "map_option (\<lambda>(b, s). (last (out s), model s, model_v_proposed s, model_v s, last_like s, like s))
     (invert toy () (14 / 10) toy_params)
   = Some (Exiting 1, 31 / 40, 31 / 40, 9 / 10, Val (1 / 100), Val (81 / 1600))"
proof -
  have run: "map_option (\<lambda>(b, s). (last (out s), model_v_proposed s, model_v s, last_like s, like s))
     (invert toy () (14 / 10) toy_params)
     = Some (Exiting 1, 31 / 40, 9 / 10, Val (1 / 100), Val (81 / 1600))"
    by (simp add: invert_def invert_loop.simps validate_loop.simps evaluate_def attempt_def
        invert_init_def toy_def toy_params_def frequency_thin_def step_def PRIOR_MIN_def
        PRIOR_MAX_def)
  then obtain b s where rs: "invert toy () (14 / 10) toy_params = Some (b, s)"
    by (cases "invert toy () (14 / 10) toy_params") auto
  with run have f: "last (out s) = Exiting 1" "model_v_proposed s = 31 / 40"
    "model_v s = 9 / 10" "last_like s = Val (1 / 100)" "like s = Val (81 / 1600)"
    by simp_all
  from floor_exit_leaves_proposal [OF rs f(1)] obtain m1 where
    "model s = copy_model toy (model_v_proposed s) m1"
    by blast
  then have "model s = model_v_proposed s"
    by (simp add: toy_def)
  with f rs show ?thesis by simp
qed

text \<open>
  C7. The driver does not branch on the boolean that \<open>ComputeStep\<close> returns: whatever
  boolean the strategies return (\<open>b\<close> is any function of the call's arguments), the run
  of \<open>invert\<close> is the same, prior validation and the use of the proposed vector included;
  no error is raised or propagated.
\<close>

theorem compute_step_flag_ignored:
  "invert (env\<lparr>ComputeStep := (\<lambda>st e w cm k v v0 old.
      (b st e w cm k v v0 old, snd (ComputeStep env st e w cm k v v0 old)))\<rparr>) w0 m0 p
   = invert env w0 m0 p"
  by (rule invert_cong)
     (simp_all add: attempt_def evaluate_def invert_init_def split_def Let_def)

text \<open>
  C8. The claim has the strategy selected by the external mode flag, as \<open>main\<close> documents
  it (mode 0 is simple gradient descent, mode 1 is quasi-Newton). The code does not do
  that: \<open>invert\<close> receives \<open>mode\<close> and never reads it. With \<open>mode = 1\<close> the small
  instance runs from 1.4 exactly as with \<open>mode = 0\<close>: its first pass is accepted with the
  simple step's \<open>epsilon\<close> 1/2, where the run that only takes quasi-Newton steps
  accepts with 1/4, and its second pass differs from the run that only takes simple
  steps.
\<close>

theorem mode_does_not_select:
  "invert toy () (14 / 10) (toy_params\<lparr>mode := 1\<rparr>) =
     invert toy () (14 / 10) (toy_params\<lparr>mode := 0\<rparr>) \<and>
   map_option (out \<circ> snd) (invert toy () (14 / 10) (toy_params\<lparr>mode := 1\<rparr>))
     = Some [Init (Val (4 / 25)), Progress 0 (Val (1 / 100)) (1 / 2), Backtracking 1, Exiting 1] \<and>
   map_option (out \<circ> snd)
     (invert (toy_only QuasiNewton) () (14 / 10) (toy_params\<lparr>mode := 1\<rparr>))
     = Some [Init (Val (4 / 25)), Progress 0 (Val (1 / 100)) (1 / 4), Backtracking 1, Exiting 1] \<and>
   map_option (out \<circ> snd)
     (invert (toy_only SimpleStep) () (14 / 10) (toy_params\<lparr>mode := 0\<rparr>))
     = Some [Init (Val (4 / 25)), Progress 0 (Val (1 / 100)) (1 / 2), Backtracking 1, Backtracking 1,
             Exiting 1]"
proof -
  have "invert toy () (14 / 10) (toy_params\<lparr>mode := 1\<rparr>) =
      invert toy () (14 / 10) (toy_params\<lparr>mode := 0\<rparr>)"
    by (simp add: invert_mode_irrelevant)
  moreover have "map_option (out \<circ> snd) (invert toy () (14 / 10) (toy_params\<lparr>mode := 1\<rparr>))
     = Some [Init (Val (4 / 25)), Progress 0 (Val (1 / 100)) (1 / 2), Backtracking 1, Exiting 1]"
    by (simp add: invert_def invert_loop.simps validate_loop.simps evaluate_def attempt_def
        invert_init_def toy_def toy_params_def frequency_thin_def step_def PRIOR_MIN_def
        PRIOR_MAX_def)
  moreover have "map_option (out \<circ> snd)
     (invert (toy_only QuasiNewton) () (14 / 10) (toy_params\<lparr>mode := 1\<rparr>))
     = Some [Init (Val (4 / 25)), Progress 0 (Val (1 / 100)) (1 / 4), Backtracking 1, Exiting 1]"
    by (simp add: invert_def invert_loop.simps validate_loop.simps evaluate_def attempt_def
        invert_init_def toy_only_def toy_def toy_params_def frequency_thin_def step_def
        PRIOR_MIN_def PRIOR_MAX_def)
  moreover have "map_option (out \<circ> snd)
     (invert (toy_only SimpleStep) () (14 / 10) (toy_params\<lparr>mode := 0\<rparr>))
     = Some [Init (Val (4 / 25)), Progress 0 (Val (1 / 100)) (1 / 2), Backtracking 1, Backtracking 1,
             Exiting 1]"
    by (simp add: invert_def invert_loop.simps validate_loop.simps evaluate_def attempt_def
        invert_init_def toy_only_def toy_def toy_params_def frequency_thin_def step_def
        PRIOR_MIN_def PRIOR_MAX_def)
  ultimately show ?thesis by blast
qed

text \<open>
  C9. Every terminating execution of \<open>invert\<close> returns true: no path returns false, and
  prior violations, backtracks and the exit at the epsilon floor do not show in the
  returned value.
\<close>

theorem invert_returns_true:
  assumes "invert env w0 m0 p = Some (r, s)"
  shows "r = True"
  using assms by (auto simp: invert_def split: option.splits)

text \<open>
  The run of the small instance from 1.4 rejects a proposal, accepts a step, backtracks
  and leaves at the floor; it returns true.
\<close>

theorem invert_returns_true_witness:
  "map_option (\<lambda>(r, s). (r, out s)) (invert toy () (14 / 10) toy_params) =
     Some (True, [Init (Val (4 / 25)), Progress 0 (Val (1 / 100)) (1 / 2), Backtracking 1, Exiting 1])"
proof -
  have run: "map_option (\<lambda>(r, s). out s) (invert toy () (14 / 10) toy_params) =
      Some [Init (Val (4 / 25)), Progress 0 (Val (1 / 100)) (1 / 2), Backtracking 1, Exiting 1]"
    by (simp add: invert_def invert_loop.simps validate_loop.simps evaluate_def attempt_def
        invert_init_def toy_def toy_params_def frequency_thin_def step_def PRIOR_MIN_def
        PRIOR_MAX_def)
  then obtain r s where rs: "invert toy () (14 / 10) toy_params = Some (r, s)"
    by (cases "invert toy () (14 / 10) toy_params") auto
  from invert_returns_true [OF rs] have "r = True" .
  with run rs show ?thesis by simp
qed

text \<open>
  C10. Every call of \<open>likelihood_love\<close> in a run of \<open>invert\<close> passes the same
  configuration: the damping, posterior flag, threshold, order, highorder, boundaryorder
  and scale that \<open>invert\<close> received, and the frequency thinning 0.001 (and the same
  reference model); only the data and the model vary. Stated on the run:
  a \<open>likelihood_love\<close> that is only ever given that configuration, whatever the caller
  passes, yields the same run.
\<close>

theorem likelihood_fixed_configuration:
  "invert (env\<lparr>likelihood_love := (\<lambda>w m r d po t o' h b sc ft.
      likelihood_love env w m (reference p) (damping p) (posterior p) (threshold p)
        (order p) (highorder p) (boundaryorder p) (scale p) 0.001)\<rparr>) w0 m0 p
   = invert env w0 m0 p"
  by (rule invert_cong)
     (simp_all add: attempt_def evaluate_def invert_init_def split_def Let_def
        frequency_thin_def)

end
